theory Spec2Isabelle
  imports Main
begin

section \<open>JavaScript values\<close>

text \<open>
  The module \<^verbatim>\<open>src/components/jambonz-ui.js\<close> is untyped JavaScript. The
  normalisation helpers can be handed any value, so their argument is a \<open>jsval\<close>.
  Numbers are carried as integers and never printed or computed with.

  A string is a sequence of UTF-16 code units, and a character of the model is
  one code unit below 256 (ASCII and Latin-1). Strings that hold other code units
  are not represented.

  \<open>JStr\<close> is a primitive string and \<open>JStringObj\<close> a \<^verbatim>\<open>String\<close> object
  (\<^verbatim>\<open>new String(s)\<close>), which has every string method. \<open>JObj\<close> is an object
  whose properties are data. Objects that bring methods of their own are not
  represented.
\<close>

datatype jsval =
    JUndefined
  | JNull
  | JBool bool
  | JNum int
  | JStr string
  | JStringObj string
  | JArr "jsval list"
  | JObj "(string \<times> jsval) list"

text \<open>
  \<open>TypeError\<close> is what the engine raises when a method is called on a value that
  does not have it; \<open>Error msg\<close> is \<^verbatim>\<open>throw new Error(msg)\<close>.
\<close>

datatype error = TypeError | Error string

text \<open>
  Arguments that the call sites supply as a string, as \<^verbatim>\<open>null\<close> or not at all
  (\<^verbatim>\<open>mediaQuery\<close>, \<^verbatim>\<open>mainStyle\<close>, \<^verbatim>\<open>subStyle\<close>, \<^verbatim>\<open>data.label\<close>).
\<close>

datatype optstr = Undefined | Null | Str string

text \<open>The truthiness test of \<^verbatim>\<open>if (v)\<close> and \<^verbatim>\<open>!v\<close>.\<close>

fun truthy :: "optstr \<Rightarrow> bool" where
  "truthy Undefined = False"
| "truthy Null = False"
| "truthy (Str s) = (s \<noteq> [])"

text \<open>String conversion inside a template literal.\<close>

fun template :: "optstr \<Rightarrow> string" where
  "template Undefined = ''undefined''"
| "template Null = ''null''"
| "template (Str s) = s"

text \<open>A default parameter value replaces \<^verbatim>\<open>undefined\<close> only.\<close>

definition default_param :: "optstr \<Rightarrow> optstr \<Rightarrow> optstr" where
  "default_param d v = (if v = Undefined then d else v)"

section \<open>Normalisation helpers\<close>

subsection \<open>normalizeSubtext\<close>

fun isArray :: "jsval \<Rightarrow> bool" where
  "isArray (JArr xs) = True"
| "isArray v = False"

definition normalizeSubtext :: "jsval \<Rightarrow> jsval" where
  "normalizeSubtext subtext = (if \<not> isArray subtext then JArr [subtext] else subtext)"

subsection \<open>normalizeSlug\<close>

text \<open>
  \<^verbatim>\<open>String.prototype.toLowerCase\<close> on code units below 256 works unit by unit:
  the capital letters A to Z (65 to 90) and the capital Latin-1 letters (192 to
  222, without the multiplication sign 215) move up by 32; every other unit has
  no lower-case form of its own and stays.
\<close>

definition toLowerCase_char :: "char \<Rightarrow> char" where
  "toLowerCase_char c =
     (let n = (of_char c :: nat)
      in if (65 \<le> n \<and> n \<le> 90) \<or> (192 \<le> n \<and> n \<le> 222 \<and> n \<noteq> 215)
         then char_of (n + 32) else c)"

definition toLowerCase :: "string \<Rightarrow> string" where
  "toLowerCase s = map toLowerCase_char s"

text \<open>
  \<^verbatim>\<open>s.split(sep)\<close> for a one-character separator: the pieces between the
  separators, empty pieces included; the empty string gives one empty piece.
\<close>

fun split :: "'a \<Rightarrow> 'a list \<Rightarrow> 'a list list" where
  "split sep [] = [[]]"
| "split sep (c # cs) =
     (if c = sep then [] # split sep cs
      else (case split sep cs of [] \<Rightarrow> [[c]] | w # ws \<Rightarrow> (c # w) # ws))"

text \<open>\<^verbatim>\<open>parts.join(sep)\<close> on an array of strings.\<close>

fun join :: "'a list \<Rightarrow> 'a list list \<Rightarrow> 'a list" where
  "join sep [] = []"
| "join sep [w] = w"
| "join sep (w # v # ws) = w @ sep @ join sep (v # ws)"

text \<open>
  \<^verbatim>\<open>String(key.toLowerCase()).split(' ').join('-')\<close>. The method call comes first:
  a value without \<^verbatim>\<open>toLowerCase\<close> raises before \<^verbatim>\<open>String\<close> is reached. On a
  string, primitive or object, \<^verbatim>\<open>toLowerCase\<close> gives a primitive string, which
  \<^verbatim>\<open>String\<close> leaves as it is.
\<close>

fun normalizeSlug :: "jsval \<Rightarrow> error + jsval" where
  "normalizeSlug (JStr key) = Inr (JStr (join ''-'' (split CHR '' '' (toLowerCase key))))"
| "normalizeSlug (JStringObj key) = Inr (JStr (join ''-'' (split CHR '' '' (toLowerCase key))))"
| "normalizeSlug v = Inl TypeError"

text \<open>The claim's wording: the key lower-cased, each space replaced by a hyphen.\<close>

definition slug_spec :: "string \<Rightarrow> string" where
  "slug_spec key = map (\<lambda>c. if c = CHR '' '' then CHR ''-'' else c) (toLowerCase key)"

subsection \<open>normalizeTextLayout\<close>

text \<open>
  A regular expression with one capture group, tried at the start of the input:
  the length of the match and the captured text.
\<close>

type_synonym regex = "string \<Rightarrow> (nat \<times> string) option"

definition is_level :: "char \<Rightarrow> bool" where
  "is_level c = (c \<in> set ''123456'')"

text \<open>\<^verbatim>\<open>/<(h[1-6])>/\<close>\<close>

definition re_open :: regex where
  "re_open s =
     (case s of
        a # b # c # d # rest \<Rightarrow>
          if a = CHR ''<'' \<and> b = CHR ''h'' \<and> is_level c \<and> d = CHR ''>''
          then Some (4, [b, c]) else None
      | _ \<Rightarrow> None)"

text \<open>\<^verbatim>\<open>/<\/(h[1-6])>/\<close>\<close>

definition re_close :: regex where
  "re_close s =
     (case s of
        a # b # c # d # e # rest \<Rightarrow>
          if a = CHR ''<'' \<and> b = CHR ''/'' \<and> c = CHR ''h'' \<and> is_level d \<and> e = CHR ''>''
          then Some (5, [c, d]) else None
      | _ \<Rightarrow> None)"

text \<open>
  \<^verbatim>\<open>s.replace(re, (m, p1) => f(p1))\<close> with the \<^verbatim>\<open>g\<close> flag: scan from the left;
  where the expression matches, emit the replacement and go on after the match,
  otherwise keep the character and move one on.
\<close>

fun replace_g :: "regex \<Rightarrow> (string \<Rightarrow> string) \<Rightarrow> string \<Rightarrow> string" where
  "replace_g re f [] = []"
| "replace_g re f (c # cs) =
     (case re (c # cs) of
        Some (n, p1) \<Rightarrow> f p1 @ replace_g re f (drop (n - 1) cs)
      | None \<Rightarrow> c # replace_g re f cs)"

definition open_div :: "string \<Rightarrow> string" where
  "open_div p1 = ''<div class='' @ [CHR 0x22] @ p1 @ [CHR 0x22] @ ''>''"

definition close_div :: "string \<Rightarrow> string" where
  "close_div p1 = ''</div>''"

text \<open>
  \<^verbatim>\<open>html.replace(...).replace(...)\<close>: the method is looked up on the value, so
  strings, primitive or object, are rewritten, and each of the other values
  raises because it has no callable \<^verbatim>\<open>replace\<close>.
\<close>

fun normalizeTextLayout :: "jsval \<Rightarrow> error + jsval" where
  "normalizeTextLayout (JStr html) =
     Inr (JStr (replace_g re_close close_div (replace_g re_open open_div html)))"
| "normalizeTextLayout (JStringObj html) =
     Inr (JStr (replace_g re_close close_div (replace_g re_open open_div html)))"
| "normalizeTextLayout v = Inl TypeError"

text \<open>
  The claim's wording, written without the code's expressions and replacement
  functions. The heading levels are the digits 1 to 6. For a level \<open>n\<close> the
  opening tag is \<^verbatim>\<open><hn>\<close> and the closing tag \<^verbatim>\<open></hn>\<close>; the opening container
  tag carries the class \<^verbatim>\<open>hn\<close>.
\<close>

definition heading_levels :: string where
  "heading_levels = ''123456''"

definition opening_tag :: "char \<Rightarrow> string" where
  "opening_tag n = ''<h'' @ [n] @ ''>''"

definition closing_tag :: "char \<Rightarrow> string" where
  "closing_tag n = ''</h'' @ [n] @ ''>''"

definition opening_container :: "char \<Rightarrow> string" where
  "opening_container n = ''<div class='' @ [CHR 0x22] @ ''h'' @ [n] @ [CHR 0x22] @ ''>''"

definition closing_container :: string where
  "closing_container = ''</div>''"

definition starts_with :: "string \<Rightarrow> string \<Rightarrow> bool" where
  "starts_with p s = (take (length p) s = p)"

text \<open>The level whose tag the text starts with, if there is one.\<close>

definition tag_at :: "(char \<Rightarrow> string) \<Rightarrow> string \<Rightarrow> char option" where
  "tag_at tag s = find (\<lambda>n. starts_with (tag n) s) heading_levels"

text \<open>
  One pass over the text: an opening tag becomes the opening container tag of its
  level, a closing tag becomes the closing container tag, and every other
  character stays as it is.
\<close>

fun rewrite_headings :: "string \<Rightarrow> string" where
  "rewrite_headings [] = []"
| "rewrite_headings (c # cs) =
     (case tag_at opening_tag (c # cs) of
        Some n \<Rightarrow> opening_container n @ rewrite_headings (drop 3 cs)
      | None \<Rightarrow>
          (case tag_at closing_tag (c # cs) of
             Some n \<Rightarrow> closing_container @ rewrite_headings (drop 4 cs)
           | None \<Rightarrow> c # rewrite_headings cs))"

section \<open>Class names\<close>

text \<open>
  The \<^verbatim>\<open>classes\<close> objects map class names to flags. A JavaScript object keeps
  its string keys in the order they were first set; setting a key again overwrites
  its value in place.
\<close>

type_synonym classes = "(string \<times> bool) list"

fun set_prop :: "string \<Rightarrow> bool \<Rightarrow> classes \<Rightarrow> classes" where
  "set_prop k v [] = [(k, v)]"
| "set_prop k v ((k', v') # ps) =
     (if k' = k then (k, v) # ps else (k', v') # set_prop k v ps)"

text \<open>An object literal sets its properties one after the other.\<close>

definition obj_literal :: "(string \<times> bool) list \<Rightarrow> classes" where
  "obj_literal kvs = foldl (\<lambda>obj (k, v). set_prop k v obj) [] kvs"

text \<open>
  The \<^verbatim>\<open>classnames\<close> package on one object: the keys whose value is truthy,
  joined by a space.
\<close>

definition classNames :: "classes \<Rightarrow> string" where
  "classNames obj = join '' '' (map fst (filter snd obj))"

text \<open>The set of class names that are switched on.\<close>

definition class_set :: "classes \<Rightarrow> string set" where
  "class_set obj = set (map fst (filter snd obj))"

subsection \<open>Button\<close>

text \<open>Lines 167 to 175: the \<^verbatim>\<open>classes\<close> object computed by \<^verbatim>\<open>Button\<close>.\<close>

definition Button_classes :: "optstr \<Rightarrow> optstr \<Rightarrow> classes" where
  "Button_classes mainStyle0 subStyle0 =
     (let mainStyle = default_param (Str ''fill'') mainStyle0;
          subStyle = default_param Null subStyle0;
          classes = obj_literal
            [(''btn'', True),
             (''btn--'' @ template mainStyle, True)]
      in if truthy subStyle
         then set_prop (''btn--'' @ template mainStyle @ ''--'' @ template subStyle) True classes
         else classes)"

subsection \<open>Icon\<close>






definition Icon_classes :: "optstr \<Rightarrow> optstr \<Rightarrow> classes" where
  "Icon_classes mainStyle0 subStyle0 =
     (let mainStyle = default_param (Str ''inline'') mainStyle0;
          subStyle = default_param Null subStyle0;
          classes = obj_literal
            [(''icon'', True),
             (''icon--'' @ template mainStyle, True)]
      in if truthy subStyle
         then set_prop (''icon--'' @ template mainStyle @ ''--'' @ template subStyle) True classes
         else classes)"


subsection \<open>Latest\<close>

text \<open>The content block handed to the hero and latest sections.\<close>

record content_block =
  headline :: string
  subtext :: jsval
  cta :: optstr
  url :: optstr
  label :: optstr

text \<open>Lines 107 to 112, and the \<^verbatim>\<open>className\<close> of the section element.\<close>

definition Latest_classes :: "content_block \<Rightarrow> classes" where
  "Latest_classes data =
     obj_literal
       [(''latest'', True),
        (''latest--'' @ template (label data), True),
        (''pad'', True),
        (''bg-pink'', True)]"

definition Latest_className :: "content_block \<Rightarrow> string" where
  "Latest_className data = classNames (Latest_classes data)"

section \<open>The media query hook\<close>

subsection \<open>The platform\<close>

text \<open>
  \<^verbatim>\<open>window.matchMedia(q)\<close> creates a fresh \<^verbatim>\<open>MediaQueryList\<close> object at each
  call. The window keeps the objects created so far, addressed by their position,
  each with its query and its registered \<^verbatim>\<open>change\<close> listeners (functions,
  named by numbers), and the current truth of every query.
\<close>

record mql =
  media :: string
  listeners :: "nat list"

record window =
  matches_now :: "string \<Rightarrow> bool"
  mqls :: "mql list"

definition matchMedia :: "string \<Rightarrow> window \<Rightarrow> nat \<times> window" where
  "matchMedia q w =
     (length (mqls w), w\<lparr>mqls := mqls w @ [\<lparr>media = q, listeners = []\<rparr>]\<rparr>)"

text \<open>\<^verbatim>\<open>mql.matches\<close>\<close>

definition mql_matches :: "nat \<Rightarrow> window \<Rightarrow> bool" where
  "mql_matches i w = (i < length (mqls w) \<and> matches_now w (media (mqls w ! i)))"

text \<open>A listener that is already registered is not registered twice.\<close>

definition addEventListener :: "nat \<Rightarrow> nat \<Rightarrow> window \<Rightarrow> window" where
  "addEventListener i h w =
     (if i < length (mqls w)
      then let m = mqls w ! i;
               ls = listeners m
           in w\<lparr>mqls := (mqls w)[i := m\<lparr>listeners := (if h \<in> set ls then ls else ls @ [h])\<rparr>]\<rparr>
      else w)"

definition removeEventListener :: "nat \<Rightarrow> nat \<Rightarrow> window \<Rightarrow> window" where
  "removeEventListener i h w =
     (if i < length (mqls w)
      then let m = mqls w ! i
           in w\<lparr>mqls := (mqls w)[i := m\<lparr>listeners := remove1 h (listeners m)\<rparr>]\<rparr>
      else w)"

text \<open>The listeners a \<^verbatim>\<open>change\<close> event for query \<open>q\<close> is delivered to.\<close>

definition dispatch_targets :: "string \<Rightarrow> window \<Rightarrow> nat list" where
  "dispatch_targets q w = concat (map listeners (filter (\<lambda>m. media m = q) (mqls w)))"

text \<open>Every registered listener, whatever the query.\<close>

definition live_listeners :: "window \<Rightarrow> nat list" where
  "live_listeners w = concat (map listeners (mqls w))"

subsection \<open>The component instance\<close>

text \<open>
  What the rendering framework keeps for the one component that calls the hook:
  the \<^verbatim>\<open>useState\<close> cell (\<open>None\<close> while the component is not mounted), the
  function memoised by \<^verbatim>\<open>useCallback\<close>, the dependencies the last render gave
  \<^verbatim>\<open>useEffect\<close>, the effect that render scheduled, and the cleanup function the
  last effect returned. A closure is the tuple of the variables it captured.
  \<open>fresh\<close> numbers the functions created so far.
\<close>

record component =
  mobile :: "bool option"
  handleMedia :: "nat option"
  effect_deps :: "(nat \<times> string) option"
  pending_effect :: "(nat \<times> string) option"
  cleanup :: "(nat \<times> nat) option"
  fresh :: nat

text \<open>\<^verbatim>\<open>useState(init)\<close>: the initial value on the first render, the cell afterwards.\<close>

definition useState :: "bool \<Rightarrow> component \<Rightarrow> bool \<times> component" where
  "useState init c =
     (case mobile c of
        None \<Rightarrow> (init, c\<lparr>mobile := Some init\<rparr>)
      | Some v \<Rightarrow> (v, c))"

definition setMobile :: "bool \<Rightarrow> component \<Rightarrow> component" where
  "setMobile v c = c\<lparr>mobile := Some v\<rparr>"

text \<open>
  \<^verbatim>\<open>useCallback(fn, [setMobile])\<close>: \<^verbatim>\<open>setMobile\<close> is the same function at every
  render, so the function created at the first render is returned ever after.
\<close>

definition useCallback :: "component \<Rightarrow> nat \<times> component" where
  "useCallback c =
     (case handleMedia c of
        None \<Rightarrow> (fresh c, c\<lparr>handleMedia := Some (fresh c), fresh := Suc (fresh c)\<rparr>)
      | Some h \<Rightarrow> (h, c))"

text \<open>
  \<^verbatim>\<open>useEffect(effect, [handleMedia, setMobile, mediaQuery])\<close>: the effect is
  scheduled at the first render and whenever a dependency differs from the
  previous render's.
\<close>

definition useEffect :: "nat \<times> string \<Rightarrow> component \<Rightarrow> component" where
  "useEffect deps c =
     (if effect_deps c = Some deps then c
      else c\<lparr>effect_deps := Some deps, pending_effect := Some deps\<rparr>)"

subsection \<open>useMatchMedia\<close>

definition misuse_message :: "optstr \<Rightarrow> string" where
  "misuse_message mediaQuery =
     ''Jambonz UI '' @ [CHR 0x22] @ ''useMatchMedia'' @ [CHR 0x22] @
     '' requires valid Media Query: '' @ template mediaQuery @ '' was passed.''"

text \<open>
  The body of the hook, lines 35 to 59, as one render runs it: the value it
  returns or the error it throws, and the instance's memory afterwards.
\<close>

definition useMatchMedia :: "optstr \<Rightarrow> component \<Rightarrow> (error + bool) \<times> component" where
  "useMatchMedia mediaQuery0 c =
     (let mediaQuery = default_param Null mediaQuery0
      in if \<not> truthy mediaQuery then (Inl (Error (misuse_message mediaQuery)), c)
         else
           let (v, c1) = useState False c;
               (h, c2) = useCallback c1;
               c3 = useEffect (h, template mediaQuery) c2
           in (Inr v, c3))"

text \<open>The function the effect returns, lines 53 to 55.\<close>

definition run_cleanup :: "window \<times> component \<Rightarrow> window \<times> component" where
  "run_cleanup wc =
     (case cleanup (snd wc) of
        None \<Rightarrow> wc
      | Some (i, h) \<Rightarrow> (removeEventListener i h (fst wc), (snd wc)\<lparr>cleanup := None\<rparr>))"

text \<open>The effect, lines 46 to 56, with \<open>h\<close> and \<open>q\<close> the captured handler and query.\<close>

definition effect_body :: "nat \<Rightarrow> string \<Rightarrow> window \<times> component \<Rightarrow> window \<times> component" where
  "effect_body h q wc =
     (let (i, w1) = matchMedia q (fst wc);
          w2 = addEventListener i h w1;
          c1 = setMobile (mql_matches i w2) (snd wc)
      in (w2, c1\<lparr>cleanup := Some (i, h)\<rparr>))"

text \<open>
  After a render the framework runs the scheduled effect, the previous effect's
  cleanup first.
\<close>

definition commit_effects :: "window \<times> component \<Rightarrow> window \<times> component" where
  "commit_effects wc =
     (case pending_effect (snd wc) of
        None \<Rightarrow> wc
      | Some (h, q) \<Rightarrow>
          effect_body h q (run_cleanup (fst wc, (snd wc)\<lparr>pending_effect := None\<rparr>)))"

text \<open>Tearing the component down runs the cleanup and discards the memory.\<close>

definition unmount :: "window \<times> component \<Rightarrow> window \<times> component" where
  "unmount wc =
     (let (w, c) = run_cleanup wc
      in (w, c\<lparr>mobile := None, handleMedia := None, effect_deps := None,
               pending_effect := None\<rparr>))"

text \<open>
  \<^verbatim>\<open>handleMedia\<close>, lines 42 to 44, called with an event whose \<^verbatim>\<open>matches\<close> is
  \<open>b\<close>. A handler that belongs to an instance that is gone has no cell to write.
\<close>

definition call_handler :: "bool \<Rightarrow> nat \<Rightarrow> component \<Rightarrow> component" where
  "call_handler b h c = (if handleMedia c = Some h then setMobile b c else c)"

text \<open>
  The platform reports that query \<open>q\<close> now evaluates to \<open>b\<close>: every listener
  registered on a \<^verbatim>\<open>MediaQueryList\<close> for \<open>q\<close> is called.
\<close>

definition media_change :: "string \<Rightarrow> bool \<Rightarrow> window \<times> component \<Rightarrow> window \<times> component" where
  "media_change q b wc =
     (let w = (fst wc)\<lparr>matches_now := (matches_now (fst wc))(q := b)\<rparr>
      in (w, fold (call_handler b) (dispatch_targets q w) (snd wc)))"

subsection \<open>Executions\<close>

text \<open>
  The life of the consuming view: it is rendered with a query (the first render
  mounts it), the platform reports changes, and it is torn down. \<open>returned\<close> is
  what the hook gave its caller at the latest render. A render that throws
  tears the component down.
\<close>

datatype event = Render optstr | MediaChange string bool | Unmount

record system =
  win :: window
  hook :: component
  returned :: "(error + bool) option"

fun step :: "event \<Rightarrow> system \<Rightarrow> system" where
  "step (Render q) s =
     (case useMatchMedia q (hook s) of
        (Inl e, c) \<Rightarrow>
          (let (w', c') = unmount (win s, c)
           in \<lparr>win = w', hook = c', returned = Some (Inl e)\<rparr>)
      | (Inr v, c) \<Rightarrow>
          (let (w', c') = commit_effects (win s, c)
           in \<lparr>win = w', hook = c', returned = Some (Inr v)\<rparr>))"
| "step (MediaChange q b) s =
     (let (w', c') = media_change q b (win s, hook s)
      in s\<lparr>win := w', hook := c'\<rparr>)"
| "step Unmount s =
     (let (w', c') = unmount (win s, hook s)
      in s\<lparr>win := w', hook := c'\<rparr>)"

definition exec :: "event list \<Rightarrow> system \<Rightarrow> system" where
  "exec evs s = fold step evs s"

text \<open>Before the view is first rendered: no object, no listener, no memory.\<close>

definition init :: "(string \<Rightarrow> bool) \<Rightarrow> system" where
  "init m =
     \<lparr>win = \<lparr>matches_now = m, mqls = []\<rparr>,
      hook = \<lparr>mobile = None, handleMedia = None, effect_deps = None,
              pending_effect = None, cleanup = None, fresh = 0\<rparr>,
      returned = None\<rparr>"

subsection \<open>The subscription invariant\<close>

text \<open>No \<^verbatim>\<open>MediaQueryList\<close> has a listener.\<close>

definition quiet :: "window \<Rightarrow> bool" where
  "quiet w = (\<forall>m \<in> set (mqls w). listeners m = [])"

text \<open>Object \<open>i\<close> has the one listener \<open>h\<close>; no other object has any.\<close>

definition only_listener :: "window \<Rightarrow> nat \<Rightarrow> nat \<Rightarrow> bool" where
  "only_listener w i h =
     (i < length (mqls w) \<and>
      (\<forall>j < length (mqls w). listeners (mqls w ! j) = (if j = i then [h] else [])))"

text \<open>
  Between two events the instance is in one of two states. Not mounted: its
  memory is empty and nothing is registered. Mounted: the stored cleanup names the
  one registered listener, which is the memoised handler, on the object of the
  query the last render passed.
\<close>

definition sub_inv :: "window \<Rightarrow> component \<Rightarrow> bool" where
  "sub_inv w c =
     (pending_effect c = None \<and>
      (case cleanup c of
         None \<Rightarrow> quiet w \<and> mobile c = None \<and> handleMedia c = None \<and> effect_deps c = None
       | Some (i, h) \<Rightarrow> only_listener w i h \<and> handleMedia c = Some h \<and>
                 effect_deps c = Some (h, media (mqls w ! i)) \<and> mobile c \<noteq> None))"

definition subscribed_inv :: "system \<Rightarrow> bool" where
  "subscribed_inv s = sub_inv (win s) (hook s)"

section \<open>Auxiliary facts\<close>

subsection \<open>Strings\<close>

lemma split_nonempty: "split sep s \<noteq> []"
  by (induction s) (auto split: list.splits)

lemma join_char_cons: "join sep ((c # w) # ws) = c # join sep (w # ws)"
  by (cases ws) simp_all

lemma join_split_map:
  "join [d] (split sep s) = map (\<lambda>c. if c = sep then d else c) s"
proof (induction s)
  case Nil
  show ?case by simp
next
  case (Cons c cs)
  obtain w ws where sp: "split sep cs = w # ws"
    using split_nonempty [of sep cs] by (cases "split sep cs") auto
  show ?case
  proof (cases "c = sep")
    case True
    then show ?thesis using Cons sp by simp
  next
    case False
    then show ?thesis using Cons sp by (simp add: join_char_cons)
  qed
qed

subsection \<open>The two replacement passes\<close>

lemma re_open_Some:
  "re_open s = Some (n, p1) \<longleftrightarrow>
     (\<exists>d rest. s = CHR ''<'' # CHR ''h'' # d # CHR ''>'' # rest \<and> is_level d \<and> n = 4 \<and> p1 = [CHR ''h'', d])"
  by (auto simp: re_open_def split: list.splits)

lemma re_close_Some:
  "re_close s = Some (n, p1) \<longleftrightarrow>
     (\<exists>d rest. s = CHR ''<'' # CHR ''/'' # CHR ''h'' # d # CHR ''>'' # rest \<and> is_level d \<and> n = 5 \<and> p1 = [CHR ''h'', d])"
  by (auto simp: re_close_def split: list.splits)

lemma is_level_not_lt: "is_level d \<Longrightarrow> d \<noteq> CHR ''<''"
  by (auto simp: is_level_def)

lemma re_open_None1: "a \<noteq> CHR ''<'' \<Longrightarrow> re_open (a # s) = None"
  by (auto simp: re_open_def split: list.splits)

lemma re_open_None2: "b \<noteq> CHR ''h'' \<Longrightarrow> re_open (a # b # s) = None"
  by (auto simp: re_open_def split: list.splits)

lemma re_close_None1: "a \<noteq> CHR ''<'' \<Longrightarrow> re_close (a # s) = None"
  by (auto simp: re_close_def split: list.splits)

lemma re_close_None2: "b \<noteq> CHR ''/'' \<Longrightarrow> re_close (a # b # s) = None"
  by (auto simp: re_close_def split: list.splits)

lemma pass1_head:
  assumes "replace_g re_open open_div cs = x # Y" and "x \<noteq> CHR ''<''"
  shows "\<exists>cs'. cs = x # cs' \<and> Y = replace_g re_open open_div cs'"
proof (cases cs)
  case Nil
  with assms show ?thesis by simp
next
  case (Cons c cs')
  show ?thesis
  proof (cases "re_open (c # cs')")
    case None
    with assms Cons show ?thesis by simp
  next
    case (Some m)
    with assms Cons show ?thesis
      by (cases m) (simp add: open_div_def)
  qed
qed

lemma pass2_open_div:
  assumes "is_level d"
  shows "replace_g re_close close_div (open_div [CHR ''h'', d] @ t) =
         open_div [CHR ''h'', d] @ replace_g re_close close_div t"
  using is_level_not_lt [OF assms]
  by (simp add: open_div_def re_close_None1 re_close_None2)

lemma pass1_open:
  assumes "is_level d"
  shows "replace_g re_open open_div (CHR ''<'' # CHR ''h'' # d # CHR ''>'' # rest) =
         open_div [CHR ''h'', d] @ replace_g re_open open_div rest"
proof -
  have "re_open (CHR ''<'' # CHR ''h'' # d # CHR ''>'' # rest) = Some (4, [CHR ''h'', d])"
    using assms by (simp add: re_open_Some)
  then show ?thesis by simp
qed

lemma pass1_close:
  assumes "is_level d"
  shows "replace_g re_open open_div (CHR ''<'' # CHR ''/'' # CHR ''h'' # d # CHR ''>'' # rest) =
         CHR ''<'' # CHR ''/'' # CHR ''h'' # d # CHR ''>'' # replace_g re_open open_div rest"
  using is_level_not_lt [OF assms]
  by (simp add: re_open_None1 re_open_None2)

lemma pass2_close:
  assumes "is_level d"
  shows "replace_g re_close close_div (CHR ''<'' # CHR ''/'' # CHR ''h'' # d # CHR ''>'' # Y) =
         close_div [CHR ''h'', d] @ replace_g re_close close_div Y"
proof -
  have "re_close (CHR ''<'' # CHR ''/'' # CHR ''h'' # d # CHR ''>'' # Y) = Some (5, [CHR ''h'', d])"
    using assms by (simp add: re_close_Some)
  then show ?thesis by simp
qed

lemma re_close_after_pass1:
  assumes "re_close (c # cs) = None"
  shows "re_close (c # replace_g re_open open_div cs) = None"
proof (rule ccontr)
  assume "re_close (c # replace_g re_open open_div cs) \<noteq> None"
  then obtain n p1 where "re_close (c # replace_g re_open open_div cs) = Some (n, p1)"
    by auto
  then obtain d R where c: "c = CHR ''<''"
    and Y: "replace_g re_open open_div cs = CHR ''/'' # CHR ''h'' # d # CHR ''>'' # R"
    and d: "is_level d"
    by (auto simp: re_close_Some)
  from pass1_head [OF Y] obtain cs1 where cs: "cs = CHR ''/'' # cs1"
    and Y1: "replace_g re_open open_div cs1 = CHR ''h'' # d # CHR ''>'' # R" by auto
  from pass1_head [OF Y1] obtain cs2 where cs1: "cs1 = CHR ''h'' # cs2"
    and Y2: "replace_g re_open open_div cs2 = d # CHR ''>'' # R" by auto
  from pass1_head [OF Y2 is_level_not_lt [OF d]] obtain cs3 where cs2: "cs2 = d # cs3"
    and Y3: "replace_g re_open open_div cs3 = CHR ''>'' # R" by auto
  from pass1_head [OF Y3] obtain cs4 where cs3: "cs3 = CHR ''>'' # cs4" by auto
  have "re_close (c # cs) = Some (5, [CHR ''h'', d])"
    using c cs cs1 cs2 cs3 d by (simp add: re_close_Some)
  with assms show False by simp
qed

lemma starts_with_iff: "starts_with p s \<longleftrightarrow> (\<exists>rest. s = p @ rest)"
proof
  assume "starts_with p s"
  then have "s = p @ drop (length p) s"
    using append_take_drop_id [of "length p" s] by (simp add: starts_with_def)
  then show "\<exists>rest. s = p @ rest" ..
next
  assume "\<exists>rest. s = p @ rest"
  then show "starts_with p s" by (auto simp: starts_with_def)
qed

lemma opening_at_Some:
  "tag_at opening_tag s = Some n \<longleftrightarrow>
     (\<exists>rest. s = CHR ''<'' # CHR ''h'' # n # CHR ''>'' # rest \<and> is_level n)"
  by (auto simp: tag_at_def heading_levels_def starts_with_iff opening_tag_def is_level_def)

lemma closing_at_Some:
  "tag_at closing_tag s = Some n \<longleftrightarrow>
     (\<exists>rest. s = CHR ''<'' # CHR ''/'' # CHR ''h'' # n # CHR ''>'' # rest \<and> is_level n)"
  by (auto simp: tag_at_def heading_levels_def starts_with_iff closing_tag_def is_level_def)

lemma opening_at_re_open:
  "tag_at opening_tag s = (case re_open s of None \<Rightarrow> None | Some (k, p1) \<Rightarrow> Some (p1 ! 1))"
proof (cases "re_open s")
  case None
  have "tag_at opening_tag s = None"
  proof (cases "tag_at opening_tag s")
    case (Some n)
    then have "re_open s = Some (4, [CHR ''h'', n])"
      by (simp add: opening_at_Some re_open_Some)
    with None show ?thesis by simp
  qed simp
  with None show ?thesis by simp
next
  case (Some m)
  obtain k p1 where m: "m = (k, p1)" by (cases m)
  from Some m obtain d rest where "s = CHR ''<'' # CHR ''h'' # d # CHR ''>'' # rest"
    and "is_level d" and "p1 = [CHR ''h'', d]"
    by (auto simp: re_open_Some)
  then have "tag_at opening_tag s = Some d" "p1 ! 1 = d"
    by (simp_all add: opening_at_Some)
  with Some m show ?thesis by simp
qed

lemma closing_at_re_close:
  "tag_at closing_tag s = (case re_close s of None \<Rightarrow> None | Some (k, p1) \<Rightarrow> Some (p1 ! 1))"
proof (cases "re_close s")
  case None
  have "tag_at closing_tag s = None"
  proof (cases "tag_at closing_tag s")
    case (Some n)
    then have "re_close s = Some (5, [CHR ''h'', n])"
      by (simp add: closing_at_Some re_close_Some)
    with None show ?thesis by simp
  qed simp
  with None show ?thesis by simp
next
  case (Some m)
  obtain k p1 where m: "m = (k, p1)" by (cases m)
  from Some m obtain d rest where "s = CHR ''<'' # CHR ''/'' # CHR ''h'' # d # CHR ''>'' # rest"
    and "is_level d" and "p1 = [CHR ''h'', d]"
    by (auto simp: re_close_Some)
  then have "tag_at closing_tag s = Some d" "p1 ! 1 = d"
    by (simp_all add: closing_at_Some)
  with Some m show ?thesis by simp
qed

lemma open_div_container: "open_div [CHR ''h'', n] = opening_container n"
  by (simp add: open_div_def opening_container_def)

lemma close_div_container: "close_div p1 = closing_container"
  by (simp add: close_div_def closing_container_def)

lemma rewrite_open:
  assumes "is_level d"
  shows "rewrite_headings (CHR ''<'' # CHR ''h'' # d # CHR ''>'' # rest) =
         opening_container d @ rewrite_headings rest"
proof -
  have "tag_at opening_tag (CHR ''<'' # CHR ''h'' # d # CHR ''>'' # rest) = Some d"
    using assms by (simp add: opening_at_Some)
  then show ?thesis by simp
qed

lemma rewrite_close:
  assumes "is_level d"
  shows "rewrite_headings (CHR ''<'' # CHR ''/'' # CHR ''h'' # d # CHR ''>'' # rest) =
         closing_container @ rewrite_headings rest"
proof -
  have "tag_at opening_tag (CHR ''<'' # CHR ''/'' # CHR ''h'' # d # CHR ''>'' # rest) = None"
    by (simp add: opening_at_re_open re_open_None2)
  moreover have "tag_at closing_tag (CHR ''<'' # CHR ''/'' # CHR ''h'' # d # CHR ''>'' # rest) = Some d"
    using assms by (simp add: closing_at_Some)
  ultimately show ?thesis by simp
qed

lemma rewrite_other:
  assumes "re_open (c # cs) = None" and "re_close (c # cs) = None"
  shows "rewrite_headings (c # cs) = c # rewrite_headings cs"
  using assms by (simp add: opening_at_re_open closing_at_re_close)

lemma two_passes_one_pass:
  "replace_g re_close close_div (replace_g re_open open_div s) = rewrite_headings s"
proof (induction s rule: length_induct)
  case (1 s)
  show ?case
  proof (cases s)
    case Nil
    then show ?thesis by simp
  next
    case (Cons c cs)
    show ?thesis
    proof (cases "re_open (c # cs)")
      case (Some m)
      obtain n p1 where m: "m = (n, p1)" by (cases m)
      from Some m obtain d rest where s: "c # cs = CHR ''<'' # CHR ''h'' # d # CHR ''>'' # rest"
        and d: "is_level d" and n: "n = 4" and p1: "p1 = [CHR ''h'', d]"
        by (auto simp: re_open_Some)
      have "length rest < length s" using s Cons by simp
      with 1 have IH: "replace_g re_close close_div (replace_g re_open open_div rest) = rewrite_headings rest"
        by blast
      have "rewrite_headings (c # cs) = opening_container d @ rewrite_headings rest"
        unfolding s by (rule rewrite_open [OF d])
      moreover have "replace_g re_close close_div (replace_g re_open open_div (c # cs)) =
          opening_container d @ replace_g re_close close_div (replace_g re_open open_div rest)"
        unfolding s
        using pass2_open_div [OF d, of "replace_g re_open open_div rest"]
        by (simp only: pass1_open [OF d] open_div_container)
      ultimately show ?thesis using IH Cons by simp
    next
      case None
      show ?thesis
      proof (cases "re_close (c # cs)")
        case (Some m)
        obtain n p1 where m: "m = (n, p1)" by (cases m)
        from Some m obtain d rest where s: "c # cs = CHR ''<'' # CHR ''/'' # CHR ''h'' # d # CHR ''>'' # rest"
          and d: "is_level d" and n: "n = 5" and p1: "p1 = [CHR ''h'', d]"
          by (auto simp: re_close_Some)
        have "length rest < length s" using s Cons by simp
        with 1 have IH: "replace_g re_close close_div (replace_g re_open open_div rest) = rewrite_headings rest"
          by blast
        have "rewrite_headings (c # cs) = closing_container @ rewrite_headings rest"
          unfolding s by (rule rewrite_close [OF d])
        moreover have "replace_g re_close close_div (replace_g re_open open_div (c # cs)) =
            closing_container @ replace_g re_close close_div (replace_g re_open open_div rest)"
          unfolding s
          using pass2_close [OF d, of "replace_g re_open open_div rest"]
          by (simp only: pass1_close [OF d] close_div_container)
        ultimately show ?thesis using IH Cons by simp
      next
        case N2: None
        have "length cs < length s" using Cons by simp
        with 1 have IH: "replace_g re_close close_div (replace_g re_open open_div cs) = rewrite_headings cs"
          by blast
        have "rewrite_headings (c # cs) = c # rewrite_headings cs"
          by (rule rewrite_other [OF None N2])
        moreover have "replace_g re_close close_div (replace_g re_open open_div (c # cs)) =
            c # replace_g re_close close_div (replace_g re_open open_div cs)"
          using None re_close_after_pass1 [OF N2] by simp
        ultimately show ?thesis using IH Cons by simp
      qed
    qed
  qed
qed

subsection \<open>Listeners\<close>

lemma concat_filter_quiet:
  "\<forall>x \<in> set xs. f x = [] \<Longrightarrow> concat (map f (filter P xs)) = []"
  by (induction xs) auto

lemma concat_filter_single:
  assumes "i < length xs" and "\<forall>j < length xs. j \<noteq> i \<longrightarrow> f (xs ! j) = []"
  shows "concat (map f (filter P xs)) = (if P (xs ! i) then f (xs ! i) else [])"
  using assms
proof (induction xs arbitrary: i)
  case Nil
  then show ?case by simp
next
  case (Cons x xs)
  show ?case
  proof (cases i)
    case 0
    have "\<forall>y \<in> set xs. f y = []"
    proof
      fix y assume "y \<in> set xs"
      then obtain j where "j < length xs" "xs ! j = y" by (auto simp: in_set_conv_nth)
      with Cons.prems(2) [rule_format, of "Suc j"] 0 show "f y = []" by simp
    qed
    then have "concat (map f (filter P xs)) = []" by (rule concat_filter_quiet)
    with 0 show ?thesis by simp
  next
    case (Suc k)
    have k: "k < length xs" using Cons.prems(1) Suc by simp
    have rest: "\<forall>j < length xs. j \<noteq> k \<longrightarrow> f (xs ! j) = []"
    proof (intro allI impI)
      fix j assume "j < length xs" "j \<noteq> k"
      with Cons.prems(2) [rule_format, of "Suc j"] Suc show "f (xs ! j) = []" by simp
    qed
    have x: "f x = []" using Cons.prems(2) [rule_format, of 0] Suc by simp
    have "concat (map f (filter P (x # xs))) = concat (map f (filter P xs))"
      using x by simp
    also have "\<dots> = (if P (xs ! k) then f (xs ! k) else [])"
      by (rule Cons.IH [OF k rest])
    also have "\<dots> = (if P ((x # xs) ! i) then f ((x # xs) ! i) else [])"
      using Suc by simp
    finally show ?thesis .
  qed
qed

lemma quiet_dispatch: "quiet w \<Longrightarrow> dispatch_targets q w = []"
  by (simp add: quiet_def dispatch_targets_def concat_filter_quiet)

lemma quiet_live: "quiet w \<Longrightarrow> live_listeners w = []"
  using concat_filter_quiet [of "mqls w" listeners "\<lambda>m. True"]
  by (simp add: quiet_def live_listeners_def)

lemma only_dispatch:
  assumes "only_listener w i h"
  shows "dispatch_targets q w = (if media (mqls w ! i) = q then [h] else [])"
proof -
  have i: "i < length (mqls w)" using assms by (simp add: only_listener_def)
  have r: "\<forall>j < length (mqls w). j \<noteq> i \<longrightarrow> listeners (mqls w ! j) = []"
    using assms by (simp add: only_listener_def)
  have "listeners (mqls w ! i) = [h]" using assms by (simp add: only_listener_def)
  with concat_filter_single [OF i r, of "\<lambda>m. media m = q"] show ?thesis
    by (simp add: dispatch_targets_def)
qed

lemma only_live:
  assumes "only_listener w i h"
  shows "live_listeners w = [h]"
proof -
  have i: "i < length (mqls w)" using assms by (simp add: only_listener_def)
  have r: "\<forall>j < length (mqls w). j \<noteq> i \<longrightarrow> listeners (mqls w ! j) = []"
    using assms by (simp add: only_listener_def)
  have "listeners (mqls w ! i) = [h]" using assms by (simp add: only_listener_def)
  with concat_filter_single [OF i r, of "\<lambda>m. True"] show ?thesis
    by (simp add: live_listeners_def)
qed

lemma remove_only_quiet:
  assumes "only_listener w i h"
  shows "quiet (removeEventListener i h w)"
  using assms
  by (auto simp: only_listener_def quiet_def removeEventListener_def Let_def
      in_set_conv_nth nth_list_update)

lemma subscribe_quiet_only:
  assumes "quiet w"
  shows "only_listener (addEventListener (length (mqls w)) h (snd (matchMedia q w))) (length (mqls w)) h"
  using assms
  by (auto simp: only_listener_def quiet_def addEventListener_def matchMedia_def Let_def
      nth_append nth_list_update)

subsection \<open>The invariant is kept\<close>

lemma cleanup_result:
  assumes "case cleanup c of None \<Rightarrow> quiet w | Some (i, h) \<Rightarrow> only_listener w i h"
  shows "quiet (fst (run_cleanup (w, c)))"
    and "snd (run_cleanup (w, c)) = c\<lparr>cleanup := None\<rparr>"
    and "matches_now (fst (run_cleanup (w, c))) = matches_now w"
proof -
  show "quiet (fst (run_cleanup (w, c)))"
    using assms by (auto simp: run_cleanup_def remove_only_quiet split: option.splits)
  show "snd (run_cleanup (w, c)) = c\<lparr>cleanup := None\<rparr>"
    by (auto simp: run_cleanup_def split: option.splits)
  show "matches_now (fst (run_cleanup (w, c))) = matches_now w"
    by (auto simp: run_cleanup_def removeEventListener_def Let_def split: option.splits)
qed

lemma effect_result:
  assumes "quiet w"
  shows "only_listener (fst (effect_body h q (w, c))) (length (mqls w)) h"
    and "media (mqls (fst (effect_body h q (w, c))) ! length (mqls w)) = q"
    and "snd (effect_body h q (w, c)) =
           c\<lparr>mobile := Some (matches_now w q), cleanup := Some (length (mqls w), h)\<rparr>"
    and "matches_now (fst (effect_body h q (w, c))) = matches_now w"
proof -
  have e: "effect_body h q (w, c) =
      (addEventListener (length (mqls w)) h (snd (matchMedia q w)),
       (setMobile (mql_matches (length (mqls w)) (addEventListener (length (mqls w)) h (snd (matchMedia q w)))) c)
         \<lparr>cleanup := Some (length (mqls w), h)\<rparr>)"
    by (simp add: effect_body_def matchMedia_def Let_def)
  show "only_listener (fst (effect_body h q (w, c))) (length (mqls w)) h"
    unfolding e using subscribe_quiet_only [OF assms] by simp
  show "media (mqls (fst (effect_body h q (w, c))) ! length (mqls w)) = q"
    unfolding e by (simp add: addEventListener_def matchMedia_def Let_def)
  show "snd (effect_body h q (w, c)) =
           c\<lparr>mobile := Some (matches_now w q), cleanup := Some (length (mqls w), h)\<rparr>"
    unfolding e
    by (simp add: addEventListener_def matchMedia_def Let_def mql_matches_def setMobile_def)
  show "matches_now (fst (effect_body h q (w, c))) = matches_now w"
    unfolding e by (simp add: addEventListener_def matchMedia_def Let_def)
qed

lemma inv_init: "subscribed_inv (init m)"
  by (simp add: subscribed_inv_def sub_inv_def init_def quiet_def)

lemma inv_unmount:
  assumes "case cleanup c of None \<Rightarrow> quiet w | Some (i, h) \<Rightarrow> only_listener w i h"
  shows "sub_inv (fst (unmount (w, c))) (snd (unmount (w, c)))"
    and "cleanup (snd (unmount (w, c))) = None"
proof -
  have u: "unmount (w, c) = (fst (run_cleanup (w, c)),
      (snd (run_cleanup (w, c)))\<lparr>mobile := None, handleMedia := None, effect_deps := None,
               pending_effect := None\<rparr>)"
    by (simp add: unmount_def split_beta)
  show "sub_inv (fst (unmount (w, c))) (snd (unmount (w, c)))"
    unfolding u using cleanup_result(1,2) [OF assms]
    by (simp add: sub_inv_def)
  show "cleanup (snd (unmount (w, c))) = None"
    unfolding u using cleanup_result(2) [OF assms] by simp
qed

lemma inv_listeners:
  assumes "subscribed_inv s"
  shows "case cleanup (hook s) of None \<Rightarrow> quiet (win s) | Some (i, h) \<Rightarrow> only_listener (win s) i h"
  using assms by (auto simp: subscribed_inv_def sub_inv_def split: option.splits)

lemma inv_commit:
  assumes "case cleanup c of None \<Rightarrow> quiet w | Some (i, h) \<Rightarrow> only_listener w i h"
    and "pending_effect c = Some (h', q)" and "handleMedia c = Some h'"
    and "effect_deps c = Some (h', q)"
  shows "sub_inv (fst (commit_effects (w, c))) (snd (commit_effects (w, c)))"
proof -
  let ?c0 = "c\<lparr>pending_effect := None\<rparr>"
  have pre: "case cleanup ?c0 of None \<Rightarrow> quiet w | Some (i, h) \<Rightarrow> only_listener w i h"
    using assms(1) by simp
  let ?w1 = "fst (run_cleanup (w, ?c0))"
  let ?c1 = "snd (run_cleanup (w, ?c0))"
  have q1: "quiet ?w1" and c1: "?c1 = ?c0\<lparr>cleanup := None\<rparr>"
    using cleanup_result(1,2) [OF pre] by simp_all
  have ce: "commit_effects (w, c) = effect_body h' q (?w1, ?c1)"
    using assms(2) by (simp add: commit_effects_def)
  show ?thesis
    unfolding ce
    using effect_result [OF q1, of h' q ?c1] c1 assms(3,4)
    by (simp add: sub_inv_def)
qed

lemma inv_media_change:
  assumes "subscribed_inv s"
  shows "subscribed_inv (step (MediaChange q b) s)"
proof (cases "cleanup (hook s)")
  case None
  then have "quiet (win s)" using assms by (simp add: subscribed_inv_def sub_inv_def)
  then have "dispatch_targets q ((win s)\<lparr>matches_now := (matches_now (win s))(q := b)\<rparr>) = []"
    by (intro quiet_dispatch) (simp add: quiet_def)
  then show ?thesis using assms None
    by (simp add: media_change_def Let_def subscribed_inv_def sub_inv_def quiet_def)
next
  case (Some p)
  obtain i h where p: "p = (i, h)" by (cases p)
  let ?w = "(win s)\<lparr>matches_now := (matches_now (win s))(q := b)\<rparr>"
  have o: "only_listener ?w i h" using assms Some p
    by (simp add: subscribed_inv_def sub_inv_def only_listener_def)
  have hm: "handleMedia (hook s) = Some h" using assms Some p by (simp add: subscribed_inv_def sub_inv_def)
  show ?thesis using assms Some p hm only_dispatch [OF o, of q]
    by (auto simp: media_change_def Let_def subscribed_inv_def sub_inv_def only_listener_def
        call_handler_def setMobile_def)
qed

lemma inv_step:
  assumes "subscribed_inv s"
  shows "subscribed_inv (step e s)"
proof (cases e)
  case (MediaChange q b)
  then show ?thesis using inv_media_change [OF assms] by simp
next
  case Unmount
  then show ?thesis using inv_unmount(1) [OF inv_listeners [OF assms]]
    by (simp add: split_beta subscribed_inv_def)
next
  case (Render q0)
  let ?q = "default_param Null q0"
  show ?thesis
  proof (cases "truthy ?q")
    case False
    then have "useMatchMedia q0 (hook s) = (Inl (Error (misuse_message ?q)), hook s)"
      by (simp add: useMatchMedia_def Let_def)
    then show ?thesis
      using Render inv_unmount(1) [OF inv_listeners [OF assms]]
      by (simp add: split_beta subscribed_inv_def)
  next
    case True
    show ?thesis
    proof (cases "cleanup (hook s)")
      case None
      then have un: "mobile (hook s) = None" "handleMedia (hook s) = None"
        "effect_deps (hook s) = None" "pending_effect (hook s) = None" "quiet (win s)"
        using assms by (simp_all add: subscribed_inv_def sub_inv_def)
      let ?h = "fresh (hook s)"
      let ?c = "(hook s)\<lparr>mobile := Some False, handleMedia := Some ?h, fresh := Suc ?h,
          effect_deps := Some (?h, template ?q), pending_effect := Some (?h, template ?q)\<rparr>"
      have r: "useMatchMedia q0 (hook s) = (Inr False, ?c)"
        using True un by (simp add: useMatchMedia_def Let_def useState_def useCallback_def useEffect_def)
      have pre: "case cleanup ?c of None \<Rightarrow> quiet (win s) | Some (i, h) \<Rightarrow> only_listener (win s) i h"
        using None un by simp
      show ?thesis
        using Render r inv_commit [OF pre, of ?h "template ?q"]
        by (simp add: split_beta subscribed_inv_def)
    next
      case (Some p)
      obtain i h where p: "p = (i, h)" by (cases p)
      from assms Some p obtain v where m: "only_listener (win s) i h" "handleMedia (hook s) = Some h"
        "effect_deps (hook s) = Some (h, media (mqls (win s) ! i))" "mobile (hook s) = Some v"
        "pending_effect (hook s) = None"
        by (auto simp: subscribed_inv_def sub_inv_def)
      show ?thesis
      proof (cases "media (mqls (win s) ! i) = template ?q")
        case same: True
        have r: "useMatchMedia q0 (hook s) = (Inr v, hook s)"
          using True m same
          by (simp add: useMatchMedia_def Let_def useState_def useCallback_def useEffect_def)
        have "commit_effects (win s, hook s) = (win s, hook s)"
          using m by (simp add: commit_effects_def)
        with Render r assms show ?thesis by (simp add: subscribed_inv_def)
      next
        case diff: False
        let ?c = "(hook s)\<lparr>effect_deps := Some (h, template ?q), pending_effect := Some (h, template ?q)\<rparr>"
        have r: "useMatchMedia q0 (hook s) = (Inr v, ?c)"
          using True m diff
          by (simp add: useMatchMedia_def Let_def useState_def useCallback_def useEffect_def)
        have pre: "case cleanup ?c of None \<Rightarrow> quiet (win s) | Some (i, h) \<Rightarrow> only_listener (win s) i h"
          using Some p m by simp
        show ?thesis
          using Render r m inv_commit [OF pre, of h "template ?q"]
          by (simp add: split_beta subscribed_inv_def)
      qed
    qed
  qed
qed

lemma inv_exec_from: "subscribed_inv s \<Longrightarrow> subscribed_inv (exec evs s)"
  unfolding exec_def by (induction evs arbitrary: s) (simp_all add: inv_step)

lemma inv_exec: "subscribed_inv (exec evs (init m))"
  by (rule inv_exec_from [OF inv_init])

subsection \<open>Single steps\<close>

lemma exec_append: "exec (xs @ ys) s = exec ys (exec xs s)"
  by (simp add: exec_def)

lemma exec_Cons: "exec (e # es) s = exec es (step e s)"
  by (simp add: exec_def)

lemma exec_Nil: "exec [] s = s"
  by (simp add: exec_def)

lemma inv_live:
  assumes "subscribed_inv s"
  shows "live_listeners (win s) = (case cleanup (hook s) of None \<Rightarrow> [] | Some (i, h) \<Rightarrow> [h])"
  using inv_listeners [OF assms]
  by (auto simp: quiet_live only_live split: option.splits)

lemma unmount_step_cleanup:
  assumes "subscribed_inv s"
  shows "cleanup (hook (step Unmount s)) = None"
  using inv_unmount(2) [OF inv_listeners [OF assms]] by (simp add: split_beta)

lemma change_unmounted:
  assumes "subscribed_inv s" and "cleanup (hook s) = None"
  shows "hook (step (MediaChange q b) s) = hook s"
    and "returned (step (MediaChange q b) s) = returned s"
proof -
  have "quiet (win s)" using assms by (simp add: subscribed_inv_def sub_inv_def)
  then have "dispatch_targets q ((win s)\<lparr>matches_now := (matches_now (win s))(q := b)\<rparr>) = []"
    by (intro quiet_dispatch) (simp add: quiet_def)
  then show "hook (step (MediaChange q b) s) = hook s"
    and "returned (step (MediaChange q b) s) = returned s"
    by (simp_all add: media_change_def Let_def)
qed

lemma changes_unmounted:
  assumes "subscribed_inv s" and "cleanup (hook s) = None"
  shows "hook (exec (map (\<lambda>(q, b). MediaChange q b) cs) s) = hook s \<and>
         returned (exec (map (\<lambda>(q, b). MediaChange q b) cs) s) = returned s"
  using assms
proof (induction cs arbitrary: s)
  case Nil
  show ?case by (simp add: exec_Nil)
next
  case (Cons c cs)
  obtain q b where c: "c = (q, b)" by (cases c)
  let ?s = "step (MediaChange q b) s"
  have i: "subscribed_inv ?s" by (rule inv_step [OF Cons.prems(1)])
  have h: "hook ?s = hook s" "returned ?s = returned s"
    using change_unmounted [OF Cons.prems] by simp_all
  have "cleanup (hook ?s) = None" using h Cons.prems(2) by simp
  from Cons.IH [OF i this] h c show ?case by (simp add: exec_Cons)
qed

lemma render_subscribes:
  assumes "subscribed_inv s" and "q \<noteq> []"
  shows "\<exists>i h. cleanup (hook (step (Render (Str q)) s)) = Some (i, h) \<and>
           effect_deps (hook (step (Render (Str q)) s)) = Some (h, q)"
proof (cases "cleanup (hook s)")
  case None
  then have un: "mobile (hook s) = None" "handleMedia (hook s) = None"
    "effect_deps (hook s) = None" "pending_effect (hook s) = None" "quiet (win s)"
    using assms by (simp_all add: subscribed_inv_def sub_inv_def)
  let ?h = "fresh (hook s)"
  let ?c = "(hook s)\<lparr>mobile := Some False, handleMedia := Some ?h, fresh := Suc ?h,
      effect_deps := Some (?h, q), pending_effect := Some (?h, q)\<rparr>"
  have r: "useMatchMedia (Str q) (hook s) = (Inr False, ?c)"
    using assms(2) un
    by (simp add: useMatchMedia_def Let_def useState_def useCallback_def useEffect_def default_param_def)
  have ce: "commit_effects (win s, ?c) = effect_body ?h q (win s, ?c\<lparr>pending_effect := None\<rparr>)"
    using None by (simp add: commit_effects_def run_cleanup_def)
  show ?thesis
    using r effect_result(3) [OF un(5), of ?h q "?c\<lparr>pending_effect := None\<rparr>"]
    by (simp add: split_beta ce)
next
  case (Some p)
  obtain i h where p: "p = (i, h)" by (cases p)
  from assms Some p obtain v where m: "only_listener (win s) i h" "handleMedia (hook s) = Some h"
    "effect_deps (hook s) = Some (h, media (mqls (win s) ! i))" "mobile (hook s) = Some v"
    "pending_effect (hook s) = None"
    by (auto simp: subscribed_inv_def sub_inv_def)
  show ?thesis
  proof (cases "media (mqls (win s) ! i) = q")
    case True
    have r: "useMatchMedia (Str q) (hook s) = (Inr v, hook s)"
      using assms(2) m True
      by (simp add: useMatchMedia_def Let_def useState_def useCallback_def useEffect_def default_param_def)
    have "commit_effects (win s, hook s) = (win s, hook s)"
      using m by (simp add: commit_effects_def)
    with r Some p m True show ?thesis by simp
  next
    case False
    let ?c = "(hook s)\<lparr>effect_deps := Some (h, q), pending_effect := Some (h, q)\<rparr>"
    have r: "useMatchMedia (Str q) (hook s) = (Inr v, ?c)"
      using assms(2) m False
      by (simp add: useMatchMedia_def Let_def useState_def useCallback_def useEffect_def default_param_def)
    let ?d = "?c\<lparr>pending_effect := None\<rparr>"
    have pre: "case cleanup ?d of None \<Rightarrow> quiet (win s) | Some (i, h) \<Rightarrow> only_listener (win s) i h"
      using Some p m by simp
    have ce: "commit_effects (win s, ?c) = effect_body h q (run_cleanup (win s, ?d))"
      by (simp add: commit_effects_def)
    have q1: "quiet (fst (run_cleanup (win s, ?d)))" by (rule cleanup_result(1) [OF pre])
    have c1: "snd (run_cleanup (win s, ?d)) = ?d\<lparr>cleanup := None\<rparr>"
      by (rule cleanup_result(2) [OF pre])
    show ?thesis
      using r effect_result(3) [OF q1, of h q "snd (run_cleanup (win s, ?d))"] c1
      by (simp add: split_beta ce)
  qed
qed

lemma render_targets:
  assumes "subscribed_inv s" and "q \<noteq> []"
  shows "dispatch_targets q (win (step (Render (Str q)) s)) = live_listeners (win (step (Render (Str q)) s))"
    and "length (live_listeners (win (step (Render (Str q)) s))) = 1"
proof -
  let ?s = "step (Render (Str q)) s"
  have i: "subscribed_inv ?s" by (rule inv_step [OF assms(1)])
  from render_subscribes [OF assms] obtain j h where
    c: "cleanup (hook ?s) = Some (j, h)" and d: "effect_deps (hook ?s) = Some (h, q)" by blast
  from i c d have o: "only_listener (win ?s) j h" and md: "media (mqls (win ?s) ! j) = q"
    by (simp_all add: subscribed_inv_def sub_inv_def)
  show "dispatch_targets q (win ?s) = live_listeners (win ?s)"
    using only_dispatch [OF o, of q] only_live [OF o] md by simp
  show "length (live_listeners (win ?s)) = 1"
    using only_live [OF o] by simp
qed

lemma mount_render:
  assumes "subscribed_inv s" and "cleanup (hook s) = None" and "q \<noteq> []"
  shows "returned (step (Render (Str q)) s) = Some (Inr False)"
    and "mobile (hook (step (Render (Str q)) s)) = Some (matches_now (win s) q)"
proof -
  have un: "mobile (hook s) = None" "handleMedia (hook s) = None"
    "effect_deps (hook s) = None" "pending_effect (hook s) = None" "quiet (win s)"
    using assms(1,2) by (simp_all add: subscribed_inv_def sub_inv_def)
  let ?h = "fresh (hook s)"
  let ?c = "(hook s)\<lparr>mobile := Some False, handleMedia := Some ?h, fresh := Suc ?h,
      effect_deps := Some (?h, q), pending_effect := Some (?h, q)\<rparr>"
  have r: "useMatchMedia (Str q) (hook s) = (Inr False, ?c)"
    using assms(3) un
    by (simp add: useMatchMedia_def Let_def useState_def useCallback_def useEffect_def default_param_def)
  have ce: "commit_effects (win s, ?c) = effect_body ?h q (win s, ?c\<lparr>pending_effect := None\<rparr>)"
    using assms(2) by (simp add: commit_effects_def run_cleanup_def)
  show "returned (step (Render (Str q)) s) = Some (Inr False)"
    using r by (simp add: split_beta)
  show "mobile (hook (step (Render (Str q)) s)) = Some (matches_now (win s) q)"
    using r effect_result(3) [OF un(5), of ?h q "?c\<lparr>pending_effect := None\<rparr>"]
    by (simp add: split_beta ce)
qed

lemma rerender_same:
  assumes "subscribed_inv s" and "q \<noteq> []" and "effect_deps (hook s) = Some (h, q)"
  shows "returned (step (Render (Str q)) s) = Some (Inr (the (mobile (hook s))))"
    and "win (step (Render (Str q)) s) = win s"
    and "hook (step (Render (Str q)) s) = hook s"
proof -
  from assms(1,3) obtain i v where m: "cleanup (hook s) = Some (i, h)"
    "handleMedia (hook s) = Some h" "mobile (hook s) = Some v" "pending_effect (hook s) = None"
    by (auto simp: subscribed_inv_def sub_inv_def split: option.splits)
  have r: "useMatchMedia (Str q) (hook s) = (Inr v, hook s)"
    using assms(2,3) m
    by (simp add: useMatchMedia_def Let_def useState_def useCallback_def useEffect_def default_param_def)
  have ce: "commit_effects (win s, hook s) = (win s, hook s)"
    using m by (simp add: commit_effects_def)
  show "returned (step (Render (Str q)) s) = Some (Inr (the (mobile (hook s))))"
    and "win (step (Render (Str q)) s) = win s"
    and "hook (step (Render (Str q)) s) = hook s"
    using r ce m by simp_all
qed

lemma change_subscribed:
  assumes "subscribed_inv s" and "effect_deps (hook s) = Some (h, q)"
  shows "mobile (hook (step (MediaChange q b) s)) = Some b"
    and "effect_deps (hook (step (MediaChange q b) s)) = Some (h, q)"
proof -
  from assms obtain i where m: "cleanup (hook s) = Some (i, h)"
    "handleMedia (hook s) = Some h" "only_listener (win s) i h" "media (mqls (win s) ! i) = q"
    by (auto simp: subscribed_inv_def sub_inv_def split: option.splits)
  let ?w = "(win s)\<lparr>matches_now := (matches_now (win s))(q := b)\<rparr>"
  have o: "only_listener ?w i h" using m(3) by (simp add: only_listener_def)
  have d: "dispatch_targets q ?w = [h]" using only_dispatch [OF o, of q] m(4) by simp
  show "mobile (hook (step (MediaChange q b) s)) = Some b"
    and "effect_deps (hook (step (MediaChange q b) s)) = Some (h, q)"
    using d m(2) assms(2) by (simp_all add: media_change_def Let_def call_handler_def setMobile_def)
qed

section \<open>The claims\<close>

subsection \<open>Media query hook\<close>

text \<open>
  Against claim C1 as it is worded: a query that matches, rendered for the first
  time. The hook reads nothing from the platform while it renders, so what it
  hands back is the initial state of the cell, \<open>False\<close>.
\<close>

theorem useMatchMedia_first_render_counterexample:
  "matches_now (win (init (\<lambda>q. True))) ''(max-width: 896px)'' \<and>
   fst (useMatchMedia (Str ''(max-width: 896px)'') (hook (init (\<lambda>q. True)))) = Inr False \<and>
   returned (exec [Render (Str ''(max-width: 896px)'')] (init (\<lambda>q. True))) = Some (Inr False)"
  by (simp add: exec_def init_def useMatchMedia_def Let_def useState_def useCallback_def
      useEffect_def default_param_def commit_effects_def run_cleanup_def effect_body_def
      matchMedia_def addEventListener_def setMobile_def mql_matches_def)

text \<open>
  Claim C1, as the code has it. Take any moment at which the view is not mounted
  and a non-empty query \<open>q\<close> that matches. The render that mounts the view
  returns \<open>False\<close>, the initial state. The effect that follows the render sets
  the cell to the current match state, \<open>True\<close>, without waiting for a change
  event, so the next render returns \<open>True\<close>. After a change event that reports
  that \<open>q\<close> no longer matches, the next render returns \<open>False\<close>.
\<close>

theorem useMatchMedia_initial_value:
  assumes "q \<noteq> []"
    and "cleanup (hook (exec evs (init m))) = None"
    and "matches_now (win (exec evs (init m))) q"
  shows "returned (exec (evs @ [Render (Str q)]) (init m)) = Some (Inr False) \<and>
         mobile (hook (exec (evs @ [Render (Str q)]) (init m))) = Some True \<and>
         returned (exec (evs @ [Render (Str q), Render (Str q)]) (init m)) = Some (Inr True) \<and>
         returned (exec (evs @ [Render (Str q), Render (Str q), MediaChange q False, Render (Str q)])
                    (init m)) = Some (Inr False)"
proof -
  let ?s0 = "exec evs (init m)"
  let ?s1 = "step (Render (Str q)) ?s0"
  let ?s2 = "step (Render (Str q)) ?s1"
  let ?s3 = "step (MediaChange q False) ?s2"
  let ?s4 = "step (Render (Str q)) ?s3"
  have i0: "subscribed_inv ?s0" by (rule inv_exec)
  have i1: "subscribed_inv ?s1" by (rule inv_step [OF i0])
  have i2: "subscribed_inv ?s2" by (rule inv_step [OF i1])
  have i3: "subscribed_inv ?s3" by (rule inv_step [OF i2])
  have r1: "returned ?s1 = Some (Inr False)" by (rule mount_render(1) [OF i0 assms(2,1)])
  have m1: "mobile (hook ?s1) = Some True"
    using mount_render(2) [OF i0 assms(2,1)] assms(3) by simp
  from render_subscribes [OF i0 assms(1)] obtain i h where
    d1: "effect_deps (hook ?s1) = Some (h, q)" by blast
  have r2: "returned ?s2 = Some (Inr True)" and h2: "hook ?s2 = hook ?s1"
    using rerender_same(1,3) [OF i1 assms(1) d1] m1 by simp_all
  have d2: "effect_deps (hook ?s2) = Some (h, q)" using h2 d1 by simp
  have m3: "mobile (hook ?s3) = Some False" and d3: "effect_deps (hook ?s3) = Some (h, q)"
    using change_subscribed [OF i2 d2, of False] by simp_all
  have r4: "returned ?s4 = Some (Inr False)"
    using rerender_same(1) [OF i3 assms(1) d3] m3 by simp
  show ?thesis
    using r1 m1 r2 r4 by (simp add: exec_append exec_Cons exec_Nil)
qed

text \<open>
  The mobile query on a small screen, from the very start.
\<close>

theorem useMatchMedia_initial_value_witness:
  "''(max-width: 896px)'' \<noteq> [] \<and>
   cleanup (hook (exec [] (init (\<lambda>q. True)))) = None \<and>
   matches_now (win (exec [] (init (\<lambda>q. True)))) ''(max-width: 896px)'' \<and>
   returned (exec ([] @ [Render (Str ''(max-width: 896px)'')]) (init (\<lambda>q. True))) = Some (Inr False) \<and>
   returned (exec ([] @ [Render (Str ''(max-width: 896px)''), Render (Str ''(max-width: 896px)'')])
      (init (\<lambda>q. True))) = Some (Inr True)"
proof -
  have a: "''(max-width: 896px)'' \<noteq> []" by simp
  have b: "cleanup (hook (exec [] (init (\<lambda>q. True)))) = None"
    by (simp add: exec_def init_def)
  have c: "matches_now (win (exec [] (init (\<lambda>q. True)))) ''(max-width: 896px)''"
    by (simp add: exec_def init_def)
  show ?thesis
    using a b c useMatchMedia_initial_value [OF a b c] by simp
qed

text \<open>
  Claim C3. Called with \<^verbatim>\<open>null\<close>, with no argument or with the empty string,
  \<^verbatim>\<open>useMatchMedia\<close> throws, and the instance's memory is what it was: no state
  cell was initialised, no handler created, no effect scheduled. Rendering a view
  that was never mounted with \<^verbatim>\<open>null\<close> leaves the window without any object or
  listener. Called with a non-empty string it returns a value.
\<close>

theorem useMatchMedia_guard:
  "useMatchMedia Null c = (Inl (Error (misuse_message Null)), c) \<and>
   useMatchMedia Undefined c = (Inl (Error (misuse_message Null)), c) \<and>
   useMatchMedia (Str []) c = (Inl (Error (misuse_message (Str []))), c) \<and>
   win (step (Render Null) (init m)) = win (init m) \<and>
   hook (step (Render Null) (init m)) = hook (init m) \<and>
   (q \<noteq> [] \<longrightarrow> (\<exists>v c'. useMatchMedia (Str q) c = (Inr v, c')))"
  by (simp add: useMatchMedia_def default_param_def Let_def split_beta init_def unmount_def
      run_cleanup_def)

text \<open>
  The mobile query is accepted, the empty query is refused.
\<close>

theorem useMatchMedia_guard_witness:
  "''(max-width: 896px)'' \<noteq> [] \<and>
   (\<exists>v c'. useMatchMedia (Str ''(max-width: 896px)'') (hook (init (\<lambda>q. False))) = (Inr v, c')) \<and>
   fst (useMatchMedia (Str []) (hook (init (\<lambda>q. False)))) = Inl (Error (misuse_message (Str [])))"
  using useMatchMedia_guard [of "hook (init (\<lambda>q. False))" "\<lambda>q. False" "''(max-width: 896px)''"]
  by simp

text \<open>
  Claim C8. After any sequence of renders, change events and teardowns:
  the registered listeners are exactly the one that the stored cleanup will
  remove, and none when there is no cleanup; after a render with a non-empty
  query \<open>q\<close> exactly one listener is registered and it is the one a change of
  \<open>q\<close> is delivered to, so that a listener registered for an earlier query has
  been removed; after teardown no listener is registered; and change events that
  arrive after teardown reach no listener, leave the instance's memory alone and
  leave the value last returned as it was.
\<close>

theorem useMatchMedia_listener_scoped:
  "live_listeners (win (exec evs (init m))) =
     (case cleanup (hook (exec evs (init m))) of None \<Rightarrow> [] | Some (i, h) \<Rightarrow> [h]) \<and>
   (q \<noteq> [] \<longrightarrow>
      dispatch_targets q (win (exec (evs @ [Render (Str q)]) (init m))) =
        live_listeners (win (exec (evs @ [Render (Str q)]) (init m))) \<and>
      length (live_listeners (win (exec (evs @ [Render (Str q)]) (init m)))) = 1) \<and>
   live_listeners (win (exec (evs @ [Unmount]) (init m))) = [] \<and>
   live_listeners (win (exec (evs @ Unmount # map (\<lambda>(q, b). MediaChange q b) cs) (init m))) = [] \<and>
   hook (exec (evs @ Unmount # map (\<lambda>(q, b). MediaChange q b) cs) (init m)) =
     hook (exec (evs @ [Unmount]) (init m)) \<and>
   returned (exec (evs @ Unmount # map (\<lambda>(q, b). MediaChange q b) cs) (init m)) =
     returned (exec (evs @ [Unmount]) (init m))"
proof -
  let ?s = "exec evs (init m)"
  let ?u = "step Unmount ?s"
  let ?cs = "map (\<lambda>(q, b). MediaChange q b) cs"
  have i: "subscribed_inv ?s" by (rule inv_exec)
  have iu: "subscribed_inv ?u" by (rule inv_step [OF i])
  have cu: "cleanup (hook ?u) = None" by (rule unmount_step_cleanup [OF i])
  have e1: "exec (evs @ [Unmount]) (init m) = ?u"
    by (simp add: exec_append exec_Cons exec_Nil)
  have e2: "exec (evs @ Unmount # ?cs) (init m) = exec ?cs ?u"
    by (simp add: exec_append exec_Cons)
  have e3: "exec (evs @ [Render (Str q)]) (init m) = step (Render (Str q)) ?s"
    by (simp add: exec_append exec_Cons exec_Nil)
  have a: "live_listeners (win ?s) =
     (case cleanup (hook ?s) of None \<Rightarrow> [] | Some (i, h) \<Rightarrow> [h])"
    by (rule inv_live [OF i])
  have b: "q \<noteq> [] \<longrightarrow>
      dispatch_targets q (win (step (Render (Str q)) ?s)) =
        live_listeners (win (step (Render (Str q)) ?s)) \<and>
      length (live_listeners (win (step (Render (Str q)) ?s))) = 1"
    using render_targets [OF i] by blast
  have c: "live_listeners (win ?u) = []"
    using inv_live [OF iu] cu by simp
  have ch: "hook (exec ?cs ?u) = hook ?u \<and> returned (exec ?cs ?u) = returned ?u"
    by (rule changes_unmounted [OF iu cu])
  have ic: "subscribed_inv (exec ?cs ?u)" by (rule inv_exec_from [OF iu])
  have d: "live_listeners (win (exec ?cs ?u)) = []"
    using inv_live [OF ic] ch cu by simp
  show ?thesis
    unfolding e1 e2 e3 using a b c d ch by blast
qed

text \<open>
  A view rendered with query \<open>a\<close>, then with query \<open>b\<close>; and a view rendered with
  \<open>a\<close>, torn down, and then told that \<open>a\<close> changed.
\<close>

theorem useMatchMedia_listener_scoped_witness:
  "live_listeners (win (exec [Render (Str ''a''), Render (Str ''b'')] (init (\<lambda>q. True)))) = [0] \<and>
   ''b'' \<noteq> [] \<and>
   dispatch_targets ''b'' (win (exec ([Render (Str ''a'')] @ [Render (Str ''b'')]) (init (\<lambda>q. True)))) = [0] \<and>
   dispatch_targets ''a'' (win (exec ([Render (Str ''a'')] @ [Render (Str ''b'')]) (init (\<lambda>q. True)))) = [] \<and>
   live_listeners (win (exec ([Render (Str ''a'')] @ [Unmount]) (init (\<lambda>q. True)))) = [] \<and>
   mobile (hook (exec ([Render (Str ''a'')] @ Unmount # map (\<lambda>(q, b). MediaChange q b) [(''a'', False)]) (init (\<lambda>q. True)))) = None"
  using useMatchMedia_listener_scoped [of "[Render (Str ''a'')]" "\<lambda>q. True" "''b''" "[(''a'', False)]"]
  by (simp add: exec_def init_def useMatchMedia_def Let_def useState_def useCallback_def
      useEffect_def default_param_def commit_effects_def run_cleanup_def effect_body_def
      matchMedia_def addEventListener_def removeEventListener_def setMobile_def mql_matches_def
      unmount_def media_change_def dispatch_targets_def live_listeners_def call_handler_def)

subsection \<open>Normalisation helpers\<close>



text \<open>
  Claim C4. A value that is not an array comes back as the one-element array
  holding it; an array comes back as it is; the result is always an array, and
  normalising twice is the same as normalising once.
\<close>

theorem normalizeSubtext_wraps:
  "(\<not> isArray x \<longrightarrow> normalizeSubtext x = JArr [x]) \<and>
   (isArray s \<longrightarrow> normalizeSubtext s = s) \<and>
   normalizeSubtext (JArr xs) = JArr xs \<and>
   isArray (normalizeSubtext v) \<and>
   normalizeSubtext (normalizeSubtext v) = normalizeSubtext v"
  by (simp add: normalizeSubtext_def)

text \<open>
  A single line of subtext, and a subtext of two lines.
\<close>

theorem normalizeSubtext_wraps_witness:
  "\<not> isArray (JStr ''one line'') \<and>
   normalizeSubtext (JStr ''one line'') = JArr [JStr ''one line''] \<and>
   isArray (JArr [JStr ''a'', JStr ''b'']) \<and>
   normalizeSubtext (JArr [JStr ''a'', JStr ''b'']) = JArr [JStr ''a'', JStr ''b'']"
  using normalizeSubtext_wraps [of "JStr ''one line''" "JArr [JStr ''a'', JStr ''b'']"]
  by simp

text \<open>
  Claim C6. On every string \<^verbatim>\<open>normalizeTextLayout\<close> gives what one pass over
  the input gives that turns each exact opening tag \<^verbatim>\<open><hN>\<close>, N from 1 to 6, into
  the \<^verbatim>\<open>div\<close> tag with class \<^verbatim>\<open>hN\<close>, each exact closing tag \<^verbatim>\<open></hN>\<close> into the
  closing \<^verbatim>\<open>div\<close> tag, and keeps every other character. The inner text stays; an
  opening tag with an attribute, an opening tag broken over two lines and tags of
  levels other than 1 to 6 stay.
\<close>

theorem normalizeTextLayout_rewrites:
  "normalizeTextLayout (JStr html) = Inr (JStr (rewrite_headings html)) \<and>
   normalizeTextLayout (JStr ''<h2>Title</h2>'') =
     Inr (JStr (''<div class='' @ [CHR 0x22] @ ''h2'' @ [CHR 0x22] @ ''>Title</div>'')) \<and>
   normalizeTextLayout (JStr ''<h1>a</h1><h6>b</h6>'') =
     Inr (JStr (''<div class='' @ [CHR 0x22] @ ''h1'' @ [CHR 0x22] @ ''>a</div>'' @
                ''<div class='' @ [CHR 0x22] @ ''h6'' @ [CHR 0x22] @ ''>b</div>'')) \<and>
   normalizeTextLayout (JStr ''<h2 id=x>Title</h2>'') = Inr (JStr ''<h2 id=x>Title</div>'') \<and>
   normalizeTextLayout (JStr (''<h2'' @ [CHR 0x0A] @ ''>Title'')) =
     Inr (JStr (''<h2'' @ [CHR 0x0A] @ ''>Title'')) \<and>
   normalizeTextLayout (JStr ''<h7>plain text</h0>'') = Inr (JStr ''<h7>plain text</h0>'')"
proof -
  have g: "normalizeTextLayout (JStr html) = Inr (JStr (rewrite_headings html))"
    by (simp add: two_passes_one_pass)
  have a: "normalizeTextLayout (JStr ''<h2>Title</h2>'') =
     Inr (JStr (''<div class='' @ [CHR 0x22] @ ''h2'' @ [CHR 0x22] @ ''>Title</div>''))"
    by code_simp
  have a': "normalizeTextLayout (JStr ''<h1>a</h1><h6>b</h6>'') =
     Inr (JStr (''<div class='' @ [CHR 0x22] @ ''h1'' @ [CHR 0x22] @ ''>a</div>'' @
                ''<div class='' @ [CHR 0x22] @ ''h6'' @ [CHR 0x22] @ ''>b</div>''))"
    by code_simp
  have b: "normalizeTextLayout (JStr ''<h2 id=x>Title</h2>'') = Inr (JStr ''<h2 id=x>Title</div>'')"
    by code_simp
  have c: "normalizeTextLayout (JStr (''<h2'' @ [CHR 0x0A] @ ''>Title'')) =
     Inr (JStr (''<h2'' @ [CHR 0x0A] @ ''>Title''))"
    by code_simp
  have d: "normalizeTextLayout (JStr ''<h7>plain text</h0>'') = Inr (JStr ''<h7>plain text</h0>'')"
    by code_simp
  show ?thesis using g a a' b c d by blast
qed

text \<open>
  Claim C9. On every string \<^verbatim>\<open>normalizeSlug\<close> gives the key lower-cased with
  each space replaced by a hyphen. The step from splitting and joining to
  replacing holds over every alphabet and after every lower-casing function, so
  also for strings with code units from 256 on. Lower-casing on the code units
  of the model moves the letters A to Z (65 to 90) and the capital Latin-1
  letters (192 to 214 and 216 to 222) up by 32 and keeps every other unit.
\<close>

theorem normalizeSlug_lowercase_hyphens:
  "normalizeSlug (JStr key) = Inr (JStr (slug_spec key)) \<and>
   join [hy] (split sp (lc k)) = map (\<lambda>c. if c = sp then hy else c) (lc k) \<and>
   toLowerCase s =
     map (\<lambda>c. if (of_char c :: nat) \<in> {65..90} \<union> {192..214} \<union> {216..222}
               then char_of ((of_char c :: nat) + 32) else c) s \<and>
   normalizeSlug (JStr ''Hello World'') = Inr (JStr ''hello-world'') \<and>
   normalizeSlug (JStr ''A B C'') = Inr (JStr ''a-b-c'') \<and>
   normalizeSlug (JStr '''') = Inr (JStr '''') \<and>
   normalizeSlug (JStr ([CHR 0xC9] @ ''cole '' @ [CHR 0xC0])) =
     Inr (JStr ([CHR 0xE9] @ ''cole-'' @ [CHR 0xE0]))"
proof -
  have g: "normalizeSlug (JStr key) = Inr (JStr (slug_spec key))"
    by (simp add: slug_spec_def join_split_map)
  have p: "join [hy] (split sp (lc k)) = map (\<lambda>c. if c = sp then hy else c) (lc k)"
    by (rule join_split_map)
  have t: "toLowerCase s =
     map (\<lambda>c. if (of_char c :: nat) \<in> {65..90} \<union> {192..214} \<union> {216..222}
               then char_of ((of_char c :: nat) + 32) else c) s"
    by (auto simp: toLowerCase_def toLowerCase_char_def Let_def)
  have a: "normalizeSlug (JStr ''Hello World'') = Inr (JStr ''hello-world'')"
    by code_simp
  have b: "normalizeSlug (JStr ''A B C'') = Inr (JStr ''a-b-c'')"
    by code_simp
  have c: "normalizeSlug (JStr '''') = Inr (JStr '''')"
    by code_simp
  have d: "normalizeSlug (JStr ([CHR 0xC9] @ ''cole '' @ [CHR 0xC0])) =
     Inr (JStr ([CHR 0xE9] @ ''cole-'' @ [CHR 0xE0]))"
    by code_simp
  show ?thesis using g p t a b c d by blast
qed

subsection \<open>Presentational elements\<close>

text \<open>
  Claim C5. For every main style \<open>m\<close>, the classes of \<^verbatim>\<open>Button\<close> are exactly
  \<open>btn\<close> and \<open>btn--m\<close> when no sub style is given, and exactly \<open>btn\<close>, \<open>btn--m\<close>
  and \<open>btn--m--s\<close> when the sub style is the non-empty string \<open>s\<close>; likewise for
  \<^verbatim>\<open>Icon\<close> with the base \<open>icon\<close>. The code tests the sub style for
  truthiness: a sub style that is present is a non-empty string, and the empty
  string counts as absent.
\<close>

theorem variant_classes:
  "class_set (Button_classes (Str m) Null) = {''btn'', ''btn--'' @ m} \<and>
   class_set (Button_classes (Str m) Undefined) = {''btn'', ''btn--'' @ m} \<and>
   (s \<noteq> [] \<longrightarrow> class_set (Button_classes (Str m) (Str s)) =
      {''btn'', ''btn--'' @ m, ''btn--'' @ m @ ''--'' @ s}) \<and>
   class_set (Icon_classes (Str m) Null) = {''icon'', ''icon--'' @ m} \<and>
   class_set (Icon_classes (Str m) Undefined) = {''icon'', ''icon--'' @ m} \<and>
   (s \<noteq> [] \<longrightarrow> class_set (Icon_classes (Str m) (Str s)) =
      {''icon'', ''icon--'' @ m, ''icon--'' @ m @ ''--'' @ s}) \<and>
   class_set (Button_classes (Str m) (Str [])) = {''btn'', ''btn--'' @ m} \<and>
   class_set (Icon_classes (Str m) (Str [])) = {''icon'', ''icon--'' @ m} \<and>
   class_set (Button_classes (Str ''fill'') Null) = {''btn'', ''btn--fill''} \<and>
   class_set (Button_classes (Str ''fill'') (Str ''small'')) =
      {''btn'', ''btn--fill'', ''btn--fill--small''} \<and>
   classNames (Button_classes (Str ''fill'') (Str ''small'')) = ''btn btn--fill btn--fill--small''"
  by (auto simp: Button_classes_def Icon_classes_def class_set_def obj_literal_def
      default_param_def Let_def classNames_def)

text \<open>
  An outlined small button and a filled small icon.
\<close>

theorem variant_classes_witness:
  "''small'' \<noteq> [] \<and>
   class_set (Button_classes (Str ''outline'') (Str ''small'')) =
      {''btn'', ''btn--outline'', ''btn--outline--small''} \<and>
   class_set (Icon_classes (Str ''fill'') (Str ''small'')) =
      {''icon'', ''icon--fill'', ''icon--fill--small''}"
  using variant_classes [of "''outline''" "''small''"] variant_classes [of "''fill''" "''small''"]
  by simp




text \<open>
  Claim C10. The classes of the section that \<^verbatim>\<open>Latest\<close> renders always hold
  \<open>latest--\<close> followed by the string form of \<^verbatim>\<open>data.label\<close>; when the label
  is absent that class is \<open>latest--undefined\<close>.
\<close>

theorem Latest_label_class:
  "Latest_classes data =
     [(''latest'', True), (''latest--'' @ template (label data), True),
      (''pad'', True), (''bg-pink'', True)] \<and>
   ''latest--'' @ template (label data) \<in> class_set (Latest_classes data) \<and>
   Latest_className data = ''latest latest--'' @ template (label data) @ '' pad bg-pink'' \<and>
   ''latest--undefined'' \<in> class_set (Latest_classes (data\<lparr>label := Undefined\<rparr>)) \<and>
   Latest_className (data\<lparr>label := Undefined\<rparr>) = ''latest latest--undefined pad bg-pink''"
  by (simp add: Latest_classes_def Latest_className_def classNames_def class_set_def obj_literal_def)

end
